theory Spec2Isabelle
  imports Complex_Main "HOL-Library.Word" "HOL-Library.Finite_Map"
begin

section \<open>UDP frame fragmentation and reassembly\<close>

text \<open>
  A shallow embedding of the packetizer of \<^verbatim>\<open>sender.py\<close> (the body of the frame loop of
  \<^verbatim>\<open>send_video\<close>) and of the reassembler of \<^verbatim>\<open>receiver.py\<close> (the class
  \<^verbatim>\<open>VideoReceiver\<close>). Python integers are \<^typ>\<open>int\<close>, byte strings are lists of
  8-bit words, dictionaries are finite maps, and a raised exception is a value.
\<close>

subsection \<open>Constants, bytes, errors\<close>

type_synonym byte = "8 word"
type_synonym bytes = "byte list"

datatype error = KeyError | StructError | ZeroDivisionError

definition MAX_UDP_SIZE :: int where
  "MAX_UDP_SIZE = 1400"

definition HEADER_SIZE :: int where
  "HEADER_SIZE = 12"

definition FRAME_BUFFER_SIZE :: int where
  "FRAME_BUFFER_SIZE = 5"

text \<open>\<^verbatim>\<open>range(n)\<close>: empty when \<open>n \<le> 0\<close>.\<close>

definition range_py :: "int \<Rightarrow> int list" where
  "range_py n = map int [0..<nat n]"

text \<open>
  \<^verbatim>\<open>xs[start:end]\<close> on a byte string: a negative bound counts from the end, and both
  bounds are clamped to the length.
\<close>

definition slice_bound :: "int \<Rightarrow> int \<Rightarrow> nat" where
  "slice_bound n i = nat (if i < 0 then max 0 (i + n) else min i n)"

definition py_slice :: "'a list \<Rightarrow> int \<Rightarrow> int \<Rightarrow> 'a list" where
  "py_slice xs start end' =
     (let n = int (length xs); s = slice_bound n start; e = slice_bound n end'
      in take (e - s) (drop s xs))"

subsection \<open>The wire format: \<^verbatim>\<open>struct.pack('>III', ...)\<close> and \<^verbatim>\<open>struct.unpack\<close>\<close>

definition u32_ok :: "int \<Rightarrow> bool" where
  "u32_ok x = (0 \<le> x \<and> x < 4294967296)"

definition be32 :: "int \<Rightarrow> bytes" where
  "be32 x = [word_of_int (x div 16777216), word_of_int (x div 65536),
             word_of_int (x div 256), word_of_int x]"

definition u32_of :: "byte \<Rightarrow> byte \<Rightarrow> byte \<Rightarrow> byte \<Rightarrow> int" where
  "u32_of b0 b1 b2 b3 = uint b0 * 16777216 + uint b1 * 65536 + uint b2 * 256 + uint b3"

text \<open>Packing raises \<^verbatim>\<open>struct.error\<close> when a field is not an unsigned 32-bit value.\<close>

definition pack_III :: "int \<Rightarrow> int \<Rightarrow> int \<Rightarrow> error + bytes" where
  "pack_III a b c =
     (if u32_ok a \<and> u32_ok b \<and> u32_ok c then Inr (be32 a @ be32 b @ be32 c)
      else Inl StructError)"

text \<open>Unpacking raises \<^verbatim>\<open>struct.error\<close> unless the buffer has exactly 12 bytes.\<close>

fun unpack_III :: "bytes \<Rightarrow> error + int \<times> int \<times> int" where
  "unpack_III [a0, a1, a2, a3, b0, b1, b2, b3, c0, c1, c2, c3] =
     Inr (u32_of a0 a1 a2 a3, u32_of b0 b1 b2 b3, u32_of c0 c1 c2 c3)"
| "unpack_III _ = Inl StructError"

subsection \<open>The packetizer (\<^verbatim>\<open>sender.py\<close>)\<close>

text \<open>
  The two module constants \<^verbatim>\<open>MAX_UDP_SIZE\<close> and \<^verbatim>\<open>HEADER_SIZE\<close> are parameters
  \<open>max_packet_size\<close> and \<open>header_size\<close> here; \<open>send_frame\<close> below fixes them to the
  values of the source. The result is the list of packets handed to \<^verbatim>\<open>sock.sendto\<close>,
  in order, and the exception that ended the frame loop, if any. Failures of
  \<^verbatim>\<open>sendto\<close> itself, which the source logs and ignores, belong to the transport and are
  not modelled; neither are the pacing delays.
\<close>

definition total_packets_of :: "int \<Rightarrow> int \<Rightarrow> bytes \<Rightarrow> error + int" where
  "total_packets_of max_packet_size header_size data =
     (if max_packet_size - header_size = 0 then Inl ZeroDivisionError
      else Inr ((int (length data) + max_packet_size - header_size - 1)
                  div (max_packet_size - header_size)))"

definition chunk_of :: "int \<Rightarrow> int \<Rightarrow> bytes \<Rightarrow> int \<Rightarrow> bytes" where
  "chunk_of max_packet_size header_size data packet_num =
     (let start = packet_num * (max_packet_size - header_size);
          end' = min (start + (max_packet_size - header_size)) (int (length data))
      in py_slice data start end')"

fun send_packets ::
  "int \<Rightarrow> int \<Rightarrow> int \<Rightarrow> bytes \<Rightarrow> int \<Rightarrow> int list \<Rightarrow> bytes list \<times> error option" where
  "send_packets max_packet_size header_size frame_number data total_packets [] = ([], None)"
| "send_packets max_packet_size header_size frame_number data total_packets (packet_num # rest) =
     (let chunk = chunk_of max_packet_size header_size data packet_num
      in case pack_III frame_number packet_num total_packets of
           Inl e \<Rightarrow> ([], Some e)
         | Inr header \<Rightarrow>
             (case send_packets max_packet_size header_size frame_number data total_packets rest of
                (sent, r) \<Rightarrow> ((header @ chunk) # sent, r)))"

definition split :: "int \<Rightarrow> int \<Rightarrow> int \<Rightarrow> bytes \<Rightarrow> bytes list \<times> error option" where
  "split max_packet_size header_size frame_number data =
     (case total_packets_of max_packet_size header_size data of
        Inl e \<Rightarrow> ([], Some e)
      | Inr total_packets \<Rightarrow>
          send_packets max_packet_size header_size frame_number data total_packets
            (range_py total_packets))"

definition send_frame :: "int \<Rightarrow> bytes \<Rightarrow> bytes list \<times> error option" where
  "send_frame frame_number data = split MAX_UDP_SIZE HEADER_SIZE frame_number data"

subsection \<open>The reassembler (\<^verbatim>\<open>receiver.py\<close>)\<close>

text \<open>
  The reassembly state of \<^verbatim>\<open>VideoReceiver\<close>. The field \<open>emitted\<close> records every call
  of \<^verbatim>\<open>process_frame\<close>, the consumer: the payload handed over, with the value of the
  cursor \<^verbatim>\<open>current_frame\<close> at the call. The field \<open>warnings\<close> records the calls of
  \<^verbatim>\<open>logger.warning\<close>; messages of the other levels, the status label, and the packet
  statistics (\<^verbatim>\<open>packets_received\<close>, \<^verbatim>\<open>last_log_time\<close>), which depend on the clock,
  are left out. An exception is the second component of a result.
\<close>

datatype warning =
    Packet_too_small nat
  | No_total_packet_count int

record receiver =
  frame_buffers :: "(int, (int, bytes) fmap) fmap"
  frame_total_packets :: "(int, int) fmap"
  current_frame :: int
  emitted :: "(int \<times> bytes) list"
  warnings :: "warning list"

text \<open>\<^verbatim>\<open>_setup_frame_buffers\<close>, and the same empty buffers with the cursor at \<open>c\<close>.\<close>

definition fresh :: "int \<Rightarrow> receiver" where
  "fresh c = \<lparr>frame_buffers = fmempty, frame_total_packets = fmempty, current_frame = c,
              emitted = [], warnings = []\<rparr>"

definition setup_frame_buffers :: receiver where
  "setup_frame_buffers = fresh 0"

definition is_frame_complete :: "(int, bytes) fmap \<Rightarrow> int \<Rightarrow> bool" where
  "is_frame_complete frame_packets total_packets =
     (if int (fcard (fmdom frame_packets)) \<noteq> total_packets then False else True)"

text \<open>\<^verbatim>\<open>frame_packets[i]\<close> raises \<^verbatim>\<open>KeyError\<close> on a missing index.\<close>

fun reassemble_loop :: "(int, bytes) fmap \<Rightarrow> int list \<Rightarrow> bytes \<Rightarrow> error + bytes" where
  "reassemble_loop frame_packets [] frame_data = Inr frame_data"
| "reassemble_loop frame_packets (i # rest) frame_data =
     (case fmlookup frame_packets i of
        None \<Rightarrow> Inl KeyError
      | Some chunk \<Rightarrow> reassemble_loop frame_packets rest (frame_data @ chunk))"

definition reassemble_frame :: "(int, bytes) fmap \<Rightarrow> int \<Rightarrow> error + bytes" where
  "reassemble_frame frame_packets total_packets =
     reassemble_loop frame_packets (range_py total_packets) []"

text \<open>
  \<^verbatim>\<open>process_frame\<close> is the consumer (validation, decoding, display); it catches its own
  exceptions and does not touch the reassembly state.
\<close>

definition process_frame :: "receiver \<Rightarrow> bytes \<Rightarrow> receiver" where
  "process_frame st jpeg_data = st\<lparr>emitted := emitted st @ [(current_frame st, jpeg_data)]\<rparr>"

text \<open>\<^verbatim>\<open>del d[k]\<close> raises \<^verbatim>\<open>KeyError\<close> when the key is absent.\<close>

definition cleanup_processed_frame :: "receiver \<Rightarrow> receiver \<times> error option" where
  "cleanup_processed_frame st =
     (if current_frame st |\<notin>| fmdom (frame_buffers st) then (st, Some KeyError)
      else
        let st1 = st\<lparr>frame_buffers := fmdrop (current_frame st) (frame_buffers st)\<rparr>
        in if current_frame st1 |\<notin>| fmdom (frame_total_packets st1) then (st1, Some KeyError)
           else
             let st2 = st1\<lparr>frame_total_packets :=
                               fmdrop (current_frame st1) (frame_total_packets st1),
                            current_frame := current_frame st1 + 1\<rparr>;
                 old_frames = ffilter (\<lambda>f. f < current_frame st2 - FRAME_BUFFER_SIZE)
                                (fmdom (frame_buffers st2))
             in (st2\<lparr>frame_buffers := fmdrop_fset old_frames (frame_buffers st2),
                      frame_total_packets := fmdrop_fset old_frames (frame_total_packets st2)\<rparr>,
                 None))"

function process_complete_frames :: "receiver \<Rightarrow> receiver \<times> error option" where
  "process_complete_frames st =
     (case fmlookup (frame_buffers st) (current_frame st) of
        None \<Rightarrow> (st, None)
      | Some frame_packets \<Rightarrow>
          (case fmlookup (frame_total_packets st) (current_frame st) of
             None \<Rightarrow>
               (st\<lparr>warnings := warnings st @ [No_total_packet_count (current_frame st)]\<rparr>, None)
           | Some total_packets \<Rightarrow>
               if \<not> is_frame_complete frame_packets total_packets then (st, None)
               else
                 (case reassemble_frame frame_packets total_packets of
                    Inl e \<Rightarrow> (st, Some e)
                  | Inr frame_data \<Rightarrow>
                      (case cleanup_processed_frame (process_frame st frame_data) of
                         (st', Some e) \<Rightarrow> (st', Some e)
                       | (st', None) \<Rightarrow> process_complete_frames st'))))"
  by pat_completeness auto

text \<open>
  \<^verbatim>\<open>_process_packet\<close>. The buffers are a \<^verbatim>\<open>defaultdict(dict)\<close>: storing into the
  buffer of an unseen frame creates it.
\<close>

definition process_packet :: "receiver \<Rightarrow> bytes \<Rightarrow> receiver \<times> error option" where
  "process_packet st data =
     (let header = take (nat HEADER_SIZE) data
      in case unpack_III header of
           Inl e \<Rightarrow> (st, None)
         | Inr (frame_number, packet_num, total_packets) \<Rightarrow>
             let packet_data = drop (nat HEADER_SIZE) data;
                 st1 = st\<lparr>frame_total_packets :=
                             fmupd frame_number total_packets (frame_total_packets st)\<rparr>;
                 frame_packets = (case fmlookup (frame_buffers st1) frame_number of
                                    None \<Rightarrow> fmempty | Some fp \<Rightarrow> fp);
                 st2 = st1\<lparr>frame_buffers :=
                              fmupd frame_number (fmupd packet_num packet_data frame_packets)
                                (frame_buffers st1)\<rparr>
             in process_complete_frames st2)"

text \<open>
  One round of the loop of \<^verbatim>\<open>check_socket\<close>: \<^verbatim>\<open>recvfrom(MAX_UDP_SIZE)\<close> returns at
  most that many bytes of the datagram, a datagram shorter than the header is dropped with
  a warning, any other goes to \<^verbatim>\<open>_process_packet\<close>.
\<close>

definition ingest :: "receiver \<Rightarrow> bytes \<Rightarrow> receiver \<times> error option" where
  "ingest st datagram =
     (let data = take (nat MAX_UDP_SIZE) datagram
      in if int (length data) < HEADER_SIZE
         then (st\<lparr>warnings := warnings st @ [Packet_too_small (length data)]\<rparr>, None)
         else process_packet st data)"

text \<open>
  \<^verbatim>\<open>check_socket\<close> on the datagrams queued at the socket: it drains the queue
  (\<^verbatim>\<open>BlockingIOError\<close> on the empty queue ends the poll) unless an exception ends the
  poll early; the datagrams not yet read stay queued for the next poll.
\<close>

fun check_socket :: "receiver \<Rightarrow> bytes list \<Rightarrow> receiver \<times> bytes list \<times> error option" where
  "check_socket st [] = (st, [], None)"
| "check_socket st (datagram # queue) =
     (case ingest st datagram of
        (st', None) \<Rightarrow> check_socket st' queue
      | (st', Some e) \<Rightarrow> (st', queue, Some e))"

text \<open>The state after each datagram of a sequence was read, over as many polls as it takes.\<close>

fun ingest_all :: "receiver \<Rightarrow> bytes list \<Rightarrow> receiver" where
  "ingest_all st [] = st"
| "ingest_all st (datagram # rest) = ingest_all (fst (ingest st datagram)) rest"

text \<open>
  The head frame is emitted by the next run of the emission loop: it is buffered, its
  packet count is known, the completeness test passes and the reassembly finds every
  index.
\<close>

definition head_emittable :: "receiver \<Rightarrow> bool" where
  "head_emittable st =
     (case fmlookup (frame_buffers st) (current_frame st) of
        None \<Rightarrow> False
      | Some frame_packets \<Rightarrow>
          (case fmlookup (frame_total_packets st) (current_frame st) of
             None \<Rightarrow> False
           | Some total_packets \<Rightarrow>
               is_frame_complete frame_packets total_packets
               \<and> (case reassemble_frame frame_packets total_packets of
                      Inl e \<Rightarrow> False | Inr frame_data \<Rightarrow> True)))"

subsection \<open>Notions used in the statements\<close>

text \<open>The state of \<^verbatim>\<open>_process_packet\<close> after its two stores, before the emission loop.\<close>

definition stored :: "receiver \<Rightarrow> int \<Rightarrow> int \<Rightarrow> int \<Rightarrow> bytes \<Rightarrow> receiver" where
  "stored st frame_number packet_num total_packets packet_data =
     st\<lparr>frame_total_packets := fmupd frame_number total_packets (frame_total_packets st),
        frame_buffers :=
          fmupd frame_number
            (fmupd packet_num packet_data
               (case fmlookup (frame_buffers st) frame_number of
                  None \<Rightarrow> fmempty | Some fp \<Rightarrow> fp))
            (frame_buffers st)\<rparr>"

text \<open>
  The frames emitted so far are those numbered from \<open>c0\<close> up to the cursor, one each,
  in this order.
\<close>

definition in_order :: "int \<Rightarrow> receiver \<Rightarrow> bool" where
  "in_order c0 st =
     (c0 \<le> current_frame st \<and> map fst (emitted st) = [c0 .. current_frame st - 1])"

text \<open>Every frame with a recorded packet count has a buffer.\<close>

definition counts_within_buffers :: "receiver \<Rightarrow> bool" where
  "counts_within_buffers st =
     (fmdom (frame_total_packets st) |\<subseteq>| fmdom (frame_buffers st))"

text \<open>
  The cursor is at frame \<open>c\<close>, no packet with index \<open>i\<close> is stored for it, and the
  packet count recorded for it, if any, is \<open>tp\<close>.
\<close>

definition head_lacks :: "int \<Rightarrow> int \<Rightarrow> int \<Rightarrow> receiver \<Rightarrow> bool" where
  "head_lacks c i tp st =
     (current_frame st = c
      \<and> (case fmlookup (frame_buffers st) c of
            None \<Rightarrow> True | Some frame_packets \<Rightarrow> fmlookup frame_packets i = None)
      \<and> (case fmlookup (frame_total_packets st) c of
            None \<Rightarrow> True | Some total_packets \<Rightarrow> total_packets = tp))"

text \<open>
  A datagram that is not the packet with index \<open>i\<close> of frame \<open>c\<close>, and that states the
  packet count \<open>tp\<close> if it belongs to frame \<open>c\<close>.
\<close>

definition withholds :: "int \<Rightarrow> int \<Rightarrow> int \<Rightarrow> bytes \<Rightarrow> bool" where
  "withholds c i tp datagram =
     (case unpack_III (take 12 datagram) of
        Inl e \<Rightarrow> True
      | Inr (frame_number, packet_num, total_packets) \<Rightarrow>
          frame_number \<noteq> c \<or> (total_packets = tp \<and> packet_num \<noteq> i))"

text \<open>A packet on the wire: the 12-byte header followed by the chunk.\<close>

definition packet :: "int \<Rightarrow> int \<Rightarrow> int \<Rightarrow> bytes \<Rightarrow> bytes" where
  "packet frame_number packet_num total_packets chunk =
     be32 frame_number @ be32 packet_num @ be32 total_packets @ chunk"

text \<open>
  The complete packet set of one frame: packet \<open>k\<close> carries chunk \<open>k\<close> and every header
  states the number of chunks.
\<close>

definition frame_packets_of :: "int \<Rightarrow> bytes list \<Rightarrow> bytes list" where
  "frame_packets_of frame_number chunks =
     map (\<lambda>k. packet frame_number (int k) (int (length chunks)) (chunks ! k))
       [0..<length chunks]"

text \<open>
  Two invariants for the proofs about one frame. While the packets of frame \<open>c\<close> come
  in: the cursor is at \<open>c\<close>, nothing was emitted, no other frame is buffered, and the
  buffer of \<open>c\<close> holds exactly the chunks with index in \<open>J\<close>. After the frame went out:
  the cursor is at \<open>c + 1\<close>, the frame was emitted once, and no other frame is buffered.
\<close>

definition collecting :: "int \<Rightarrow> bytes list \<Rightarrow> nat set \<Rightarrow> receiver \<Rightarrow> bool" where
  "collecting c chunks J st =
     (current_frame st = c \<and> emitted st = []
      \<and> (\<forall>f. f \<noteq> c \<longrightarrow> fmlookup (frame_buffers st) f = None)
      \<and> (if J = {} then fmlookup (frame_buffers st) c = None
          else fmlookup (frame_total_packets st) c = Some (int (length chunks))
               \<and> (\<exists>m. fmlookup (frame_buffers st) c = Some m
                        \<and> fmdom' m = int ` J
                        \<and> (\<forall>j\<in>J. fmlookup m (int j) = Some (chunks ! j)))))"

definition delivered :: "int \<Rightarrow> bytes list \<Rightarrow> receiver \<Rightarrow> bool" where
  "delivered c chunks st =
     (current_frame st = c + 1 \<and> emitted st = [(c, concat chunks)]
      \<and> (\<forall>f. f \<noteq> c \<longrightarrow> fmlookup (frame_buffers st) f = None))"

subsection \<open>Termination of the emission loop\<close>

text \<open>
  The loop ends: every round removes the head frame from the buffers and moves the cursor
  past it, so the number of buffered frames at or after the cursor goes down.
\<close>

definition pending :: "receiver \<Rightarrow> nat" where
  "pending st = card {f \<in> fmdom' (frame_buffers st). current_frame st \<le> f}"

lemma cleanup_pending:
  assumes "cleanup_processed_frame (process_frame st d) = (st', None)"
  shows "pending st' < pending st"
proof -
  let ?c = "current_frame st"
  let ?A = "{f \<in> fmdom' (frame_buffers st). ?c \<le> f}"
  from assms have in_dom: "?c \<in> fmdom' (frame_buffers st)"
    by (auto simp: cleanup_processed_frame_def process_frame_def Let_def fmdom'_alt_def
        split: if_splits)
  from assms have sub:
    "{f \<in> fmdom' (frame_buffers st'). current_frame st' \<le> f} \<subseteq> ?A - {?c}"
    by (auto simp: cleanup_processed_frame_def process_frame_def Let_def split: if_splits)
  have fin: "finite ?A" by simp
  have "card (?A - {?c}) < card ?A"
    using in_dom fin by (intro card_Diff1_less) auto
  moreover have "card {f \<in> fmdom' (frame_buffers st'). current_frame st' \<le> f} \<le> card (?A - {?c})"
    using sub fin by (intro card_mono) auto
  ultimately show ?thesis by (simp add: pending_def)
qed

termination process_complete_frames
  apply (relation "measure pending")
   apply simp
  apply (simp add: cleanup_pending)
  done

section \<open>Basic facts\<close>

declare process_complete_frames.simps [simp del]

lemma eval_consts:
  "nat MAX_UDP_SIZE = 1400" "nat HEADER_SIZE = 12" "HEADER_SIZE = 12" "MAX_UDP_SIZE = 1400"
  "FRAME_BUFFER_SIZE = 5"
  by (simp_all add: MAX_UDP_SIZE_def HEADER_SIZE_def FRAME_BUFFER_SIZE_def)

lemma u32_of_be32_arith:
  fixes x :: int
  assumes "0 \<le> x" "x < 4294967296"
  shows "(x div 16777216 mod 256) * 16777216 + (x div 65536 mod 256) * 65536
          + (x div 256 mod 256) * 256 + x mod 256 = x"
proof -
  define a where "a = x div 256"
  define b where "b = a div 256"
  define c where "c = b div 256"
  have d1: "x div 65536 = b"
    unfolding a_def b_def by (simp add: zdiv_zmult2_eq [symmetric])
  have d2: "x div 16777216 = c"
    unfolding a_def b_def c_def by (simp add: zdiv_zmult2_eq [symmetric])
  have "c < 256" "0 \<le> c"
    using assms d2 [symmetric] by simp_all
  then have top: "c mod 256 = c" by simp
  have x: "x = a * 256 + x mod 256" by (simp add: a_def)
  have a: "a = b * 256 + a mod 256" by (simp add: b_def)
  have b: "b = c * 256 + b mod 256" by (simp add: c_def)
  have "c * 16777216 + (b mod 256) * 65536 + (a mod 256) * 256 + x mod 256
        = (((c * 256 + b mod 256) * 256) + a mod 256) * 256 + x mod 256"
    by (simp add: algebra_simps)
  also have "\<dots> = x"
    using x a b by simp
  finally show ?thesis
    by (simp add: d1 d2 top a_def)
qed

lemma unpack_pack:
  assumes "u32_ok a" "u32_ok b" "u32_ok c"
  shows "unpack_III (take 12 (be32 a @ be32 b @ be32 c @ chunk)) = Inr (a, b, c)"
  using assms
  by (simp add: be32_def u32_of_def u32_ok_def uint_word_of_int u32_of_be32_arith)

lemma unpack_III_length: "unpack_III header = Inr h \<Longrightarrow> length header = 12"
  by (induction header rule: unpack_III.induct) simp_all

lemma not_emittable_stays:
  assumes "\<not> head_emittable st"
  shows "frame_buffers (fst (process_complete_frames st)) = frame_buffers st"
    and "frame_total_packets (fst (process_complete_frames st)) = frame_total_packets st"
    and "current_frame (fst (process_complete_frames st)) = current_frame st"
    and "emitted (fst (process_complete_frames st)) = emitted st"
  using assms
  by (auto simp: head_emittable_def process_complete_frames.simps [of st]
      split: option.splits sum.splits)

section \<open>Malformed datagrams\<close>

text \<open>
  C8: a datagram shorter than the 12 bytes of the header is dropped with a logged warning:
  the frame buffers, the packet counts, the cursor and the emitted frames are as before.
\<close>

theorem short_datagram_dropped:
  assumes "length datagram < 12"
  shows "ingest st datagram =
           (st\<lparr>warnings := warnings st @ [Packet_too_small (length datagram)]\<rparr>, None)
         \<and> frame_buffers (fst (ingest st datagram)) = frame_buffers st
         \<and> frame_total_packets (fst (ingest st datagram)) = frame_total_packets st
         \<and> current_frame (fst (ingest st datagram)) = current_frame st
         \<and> emitted (fst (ingest st datagram)) = emitted st"
  using assms by (simp add: ingest_def eval_consts)

theorem short_datagram_dropped_witness:
  "ingest (fresh 0) [1, 2, 3] = (fresh 0\<lparr>warnings := [Packet_too_small 3]\<rparr>, None)
   \<and> frame_buffers (fst (ingest (fresh 0) [1, 2, 3])) = fmempty"
  using short_datagram_dropped [of "[1, 2, 3]" "fresh 0"] by (simp add: fresh_def)

section \<open>Completeness is a count\<close>

text \<open>
  C10: the packet index is not checked against the packet count. A single datagram for
  the head frame with index 1 and count 1 passes the completeness test while index 0 is
  absent; the reassembly raises \<^verbatim>\<open>KeyError\<close>, which ends the poll with the rest of the
  queue unread, the frame still buffered, the cursor unchanged and nothing emitted.
\<close>

theorem index_out_of_range_raises:
  "is_frame_complete (fmupd 1 [] fmempty) 1
   \<and> fmlookup (fmupd 1 ([] :: bytes) fmempty) (0 :: int) = None
   \<and> reassemble_frame (fmupd 1 [] fmempty) 1 = Inl KeyError
   \<and> pack_III 0 1 1 = Inr [0, 0, 0, 0, 0, 0, 0, 1, 0, 0, 0, 1]
   \<and> check_socket setup_frame_buffers ([0, 0, 0, 0, 0, 0, 0, 1, 0, 0, 0, 1] # queue) =
       (\<lparr>frame_buffers = fmupd 0 (fmupd 1 [] fmempty) fmempty,
         frame_total_packets = fmupd 0 1 fmempty,
         current_frame = 0, emitted = [], warnings = []\<rparr>, queue, Some KeyError)"
  by (simp add: ingest_def process_packet_def fresh_def setup_frame_buffers_def eval_consts
      u32_of_def is_frame_complete_def reassemble_frame_def range_py_def fcard_finsert_if
      pack_III_def u32_ok_def be32_def process_complete_frames.simps)

text \<open>
  C2: the completeness test at a buffer that holds one packet, at index 1, for a frame of
  one packet: the test passes although the stored indices are not \<open>{0}\<close>.
\<close>

theorem is_frame_complete_counts_keys:
  "is_frame_complete (fmupd 1 [] fmempty) 1
   \<and> fmdom' (fmupd 1 ([] :: bytes) fmempty) \<noteq> {0 ..< (1 :: int)}"
proof -
  have "{1} \<noteq> {0 ..< (1 :: int)}"
  proof
    assume "{1} = {0 ..< (1 :: int)}"
    moreover have "(0 :: int) \<in> {0 ..< 1}" by simp
    ultimately have "(0 :: int) \<in> {1}" by simp
    then show False by simp
  qed
  then show ?thesis by (simp add: is_frame_complete_def fcard_finsert_if)
qed

text \<open>
  C7, as stated: ingesting the datagram of frame 0, index 0 and packet count 0 into the
  initial receiver would leave the buffers as they were. It does not.
\<close>

theorem zero_total_packets_stored_counterexample:
  "\<not> (frame_buffers (fst (ingest setup_frame_buffers [0, 0, 0, 0, 0, 0, 0, 0, 0, 0, 0, 0]))
        = frame_buffers setup_frame_buffers
      \<and> frame_total_packets (fst (ingest setup_frame_buffers [0, 0, 0, 0, 0, 0, 0, 0, 0, 0, 0, 0]))
        = frame_total_packets setup_frame_buffers)"
proof -
  have "fmlookup (frame_total_packets
          (fst (ingest setup_frame_buffers [0, 0, 0, 0, 0, 0, 0, 0, 0, 0, 0, 0]))) 0 = Some 0"
    by (simp add: ingest_def process_packet_def fresh_def setup_frame_buffers_def eval_consts
      u32_of_def is_frame_complete_def fcard_finsert_if process_complete_frames.simps)
  moreover have "fmlookup (frame_total_packets setup_frame_buffers) 0 = None"
    by (simp add: fresh_def setup_frame_buffers_def)
  ultimately show ?thesis by auto
qed

text \<open>
  C7, amended: a datagram whose header decodes to a packet count of 0 is not rejected.
  Where the head frame is not about to be emitted (as in the initial state and after every
  ingest), the count 0 is recorded for its frame and its payload is stored under its
  index, the cursor stays and no frame is emitted.
\<close>

theorem zero_total_packets_stored:
  assumes "unpack_III (take 12 datagram) = Inr (frame_number, packet_num, 0)"
    and "\<not> head_emittable st"
  shows "frame_total_packets (fst (ingest st datagram))
           = fmupd frame_number 0 (frame_total_packets st)
       \<and> frame_buffers (fst (ingest st datagram))
           = fmupd frame_number
               (fmupd packet_num (drop 12 (take 1400 datagram))
                  (case fmlookup (frame_buffers st) frame_number of
                     None \<Rightarrow> fmempty | Some fp \<Rightarrow> fp))
               (frame_buffers st)
       \<and> current_frame (fst (ingest st datagram)) = current_frame st
       \<and> emitted (fst (ingest st datagram)) = emitted st"
proof -
  let ?data = "take 1400 datagram"
  let ?fp = "case fmlookup (frame_buffers st) frame_number of None \<Rightarrow> fmempty | Some fp \<Rightarrow> fp"
  let ?st2 = "st\<lparr>frame_total_packets := fmupd frame_number 0 (frame_total_packets st),
                 frame_buffers := fmupd frame_number (fmupd packet_num (drop 12 ?data) ?fp)
                                    (frame_buffers st)\<rparr>"
  from assms(1) have len: "12 \<le> length datagram"
    using unpack_III_length by fastforce
  then have hd: "take 12 ?data = take 12 datagram" by (simp add: min_def)
  have ing: "ingest st datagram = process_complete_frames ?st2"
    using len assms(1) by (simp add: ingest_def process_packet_def eval_consts hd Let_def min_def)
  have "\<not> head_emittable ?st2"
    using assms(2)
    by (auto simp: head_emittable_def is_frame_complete_def fcard_finsert_if
        split: option.splits if_splits)
  from not_emittable_stays [OF this] ing show ?thesis by simp
qed

theorem zero_total_packets_stored_witness:
  "frame_total_packets (fst (ingest (fresh 0) [0, 0, 0, 0, 0, 0, 0, 0, 0, 0, 0, 0]))
     = fmupd 0 0 fmempty
   \<and> emitted (fst (ingest (fresh 0) [0, 0, 0, 0, 0, 0, 0, 0, 0, 0, 0, 0])) = []"
proof -
  have a: "unpack_III (take 12 [0, 0, 0, 0, 0, 0, 0, 0, 0, 0, 0, 0]) = Inr (0, 0, 0)"
    by (simp add: u32_of_def)
  have b: "\<not> head_emittable (fresh 0)"
    by (simp add: head_emittable_def fresh_def)
  from zero_total_packets_stored [OF a b] show ?thesis by (simp add: fresh_def)
qed

section \<open>The emission loop\<close>

lemma unpack_III_12:
  assumes "length header = 12"
  shows "\<exists>a b c. unpack_III header = Inr (a, b, c)"
proof -
  from assms obtain a0 a1 a2 a3 b0 b1 b2 b3 c0 c1 c2 c3
    where "header = [a0, a1, a2, a3, b0, b1, b2, b3, c0, c1, c2, c3]"
    by (auto simp: numeral_eq_Suc length_Suc_conv)
  then show ?thesis by simp
qed

lemma ingest_short:
  assumes "length datagram < 12"
  shows "ingest st datagram =
           (st\<lparr>warnings := warnings st @ [Packet_too_small (length datagram)]\<rparr>, None)"
  using assms by (simp add: ingest_def eval_consts)

lemma ingest_long:
  assumes "12 \<le> length datagram"
  obtains frame_number packet_num total_packets where
    "unpack_III (take 12 datagram) = Inr (frame_number, packet_num, total_packets)"
    "ingest st datagram =
       process_complete_frames
         (stored st frame_number packet_num total_packets (drop 12 (take 1400 datagram)))"
proof -
  from assms have "length (take 12 datagram) = 12" by simp
  from unpack_III_12 [OF this] obtain a b c
    where u: "unpack_III (take 12 datagram) = Inr (a, b, c)" by blast
  have hd: "take 12 (take 1400 datagram) = take 12 datagram" by (simp add: min_def)
  have "ingest st datagram = process_complete_frames (stored st a b c (drop 12 (take 1400 datagram)))"
    using assms u by (simp add: ingest_def process_packet_def eval_consts hd Let_def min_def stored_def)
  with u show ?thesis using that by blast
qed

lemma cleanup_emit:
  assumes "fmlookup (frame_buffers st) (current_frame st) = Some fp"
    and "fmlookup (frame_total_packets st) (current_frame st) = Some tp"
  shows "cleanup_processed_frame (process_frame st frame_data) =
     (st\<lparr>emitted := emitted st @ [(current_frame st, frame_data)],
         frame_buffers :=
           fmdrop_fset (ffilter (\<lambda>f. f < current_frame st + 1 - FRAME_BUFFER_SIZE)
                          (fmdom (fmdrop (current_frame st) (frame_buffers st))))
             (fmdrop (current_frame st) (frame_buffers st)),
         frame_total_packets :=
           fmdrop_fset (ffilter (\<lambda>f. f < current_frame st + 1 - FRAME_BUFFER_SIZE)
                          (fmdom (fmdrop (current_frame st) (frame_buffers st))))
             (fmdrop (current_frame st) (frame_total_packets st)),
         current_frame := current_frame st + 1\<rparr>, None)"
  using assms
  by (simp add: cleanup_processed_frame_def process_frame_def Let_def fmlookup_dom_iff)

lemma emittable_unfold:
  assumes "head_emittable st"
  obtains fp tp frame_data st' where
    "fmlookup (frame_buffers st) (current_frame st) = Some fp"
    "fmlookup (frame_total_packets st) (current_frame st) = Some tp"
    "is_frame_complete fp tp"
    "reassemble_frame fp tp = Inr frame_data"
    "cleanup_processed_frame (process_frame st frame_data) = (st', None)"
    "process_complete_frames st = process_complete_frames st'"
proof -
  from assms obtain fp tp frame_data where
    a: "fmlookup (frame_buffers st) (current_frame st) = Some fp"
    and b: "fmlookup (frame_total_packets st) (current_frame st) = Some tp"
    and c: "is_frame_complete fp tp"
    and d: "reassemble_frame fp tp = Inr frame_data"
    by (auto simp: head_emittable_def split: option.splits sum.splits)
  from cleanup_emit [OF a b] obtain st' where
    e: "cleanup_processed_frame (process_frame st frame_data) = (st', None)" by blast
  have "process_complete_frames st = process_complete_frames st'"
    using a b c d e by (simp add: process_complete_frames.simps [of st])
  with a b c d e show ?thesis using that by blast
qed

lemma pcf_induct [case_names stop emit]:
  assumes stop: "\<And>st. \<not> head_emittable st \<Longrightarrow> P st"
    and emit: "\<And>st fp tp frame_data st'.
      fmlookup (frame_buffers st) (current_frame st) = Some fp \<Longrightarrow>
      fmlookup (frame_total_packets st) (current_frame st) = Some tp \<Longrightarrow>
      is_frame_complete fp tp \<Longrightarrow>
      reassemble_frame fp tp = Inr frame_data \<Longrightarrow>
      cleanup_processed_frame (process_frame st frame_data) = (st', None) \<Longrightarrow>
      process_complete_frames st = process_complete_frames st' \<Longrightarrow>
      P st' \<Longrightarrow> P st"
  shows "P st"
proof (induction "pending st" arbitrary: st rule: less_induct)
  case less
  show ?case
  proof (cases "head_emittable st")
    case False
    then show ?thesis by (rule stop)
  next
    case True
    then obtain fp tp frame_data st' where
      h: "fmlookup (frame_buffers st) (current_frame st) = Some fp"
      "fmlookup (frame_total_packets st) (current_frame st) = Some tp"
      "is_frame_complete fp tp"
      "reassemble_frame fp tp = Inr frame_data"
      "cleanup_processed_frame (process_frame st frame_data) = (st', None)"
      "process_complete_frames st = process_complete_frames st'"
      by (rule emittable_unfold)
    from cleanup_pending [OF h(5)] have "P st'" by (rule less)
    with h show ?thesis by (rule emit)
  qed
qed

lemma not_emittable_warnings:
  assumes "\<not> head_emittable st"
  shows "\<exists>w. fst (process_complete_frames st) = st\<lparr>warnings := w\<rparr>"
  using assms
  by (auto simp: head_emittable_def process_complete_frames.simps [of st]
      split: option.splits sum.splits intro: exI [of _ "warnings st"])

lemma head_emittable_warnings [simp]:
  "head_emittable (st\<lparr>warnings := w\<rparr>) = head_emittable st"
  by (simp add: head_emittable_def split: option.splits)





lemma in_order_warnings [simp]: "in_order c0 (st\<lparr>warnings := w\<rparr>) = in_order c0 st"
  by (simp add: in_order_def)

lemma in_order_stored [simp]: "in_order c0 (stored st a b c d) = in_order c0 st"
  by (simp add: in_order_def stored_def)





section \<open>Emission in cursor order\<close>


section \<open>Eviction\<close>

lemma ffilter_fempty: "ffilter P {||} = {||}"
  by auto

lemma ffilter_finsert:
  "ffilter P (finsert x A) = (if P x then finsert x (ffilter P A) else ffilter P A)"
  by auto

lemmas buffer_eval = fcard_finsert_if ffilter_fempty ffilter_finsert fmdrop_fmupd

lemma counts_within_buffers_warnings [simp]:
  "counts_within_buffers (st\<lparr>warnings := w\<rparr>) = counts_within_buffers st"
  by (simp add: counts_within_buffers_def)

lemma counts_within_buffers_stored:
  "counts_within_buffers st \<Longrightarrow> counts_within_buffers (stored st a b c d)"
  by (auto simp: counts_within_buffers_def stored_def)

lemma counts_within_buffers_cleanup:
  assumes "counts_within_buffers st"
    and "cleanup_processed_frame (process_frame st frame_data) = (st', None)"
  shows "counts_within_buffers st'"
  using assms
  by (auto simp: counts_within_buffers_def cleanup_processed_frame_def process_frame_def
      Let_def split: if_splits)

lemma pcf_counts_within_buffers:
  "counts_within_buffers st \<Longrightarrow> counts_within_buffers (fst (process_complete_frames st))"
proof (induction st rule: pcf_induct)
  case (stop st)
  from not_emittable_warnings [OF stop(1)] obtain w
    where "fst (process_complete_frames st) = st\<lparr>warnings := w\<rparr>" by blast
  with stop show ?case by simp
next
  case (emit st fp tp frame_data st')
  from counts_within_buffers_cleanup [OF emit.prems emit.hyps(5)] emit show ?case by simp
qed

lemma ingest_counts_within_buffers:
  assumes "counts_within_buffers st"
  shows "counts_within_buffers (fst (ingest st datagram))"
proof (cases "length datagram < 12")
  case True
  with assms show ?thesis by (simp add: ingest_short)
next
  case False
  then have "12 \<le> length datagram" by simp
  then obtain a b c where
    "ingest st datagram =
       process_complete_frames (stored st a b c (drop 12 (take 1400 datagram)))"
    by (rule ingest_long [where st = st])
  with assms show ?thesis
    by (simp add: pcf_counts_within_buffers counts_within_buffers_stored)
qed

lemma ingest_all_counts_within_buffers:
  "counts_within_buffers st \<Longrightarrow> counts_within_buffers (ingest_all st ds)"
  by (induction ds arbitrary: st) (simp_all add: ingest_counts_within_buffers)

lemma fresh_counts_within_buffers: "counts_within_buffers (fresh c)"
  by (simp add: counts_within_buffers_def fresh_def)

text \<open>
  C5, amended: right after \<^verbatim>\<open>_cleanup_processed_frame\<close> has moved the cursor, no buffer
  and no packet count is left for a frame number below the cursor minus
  \<^verbatim>\<open>FRAME_BUFFER_SIZE\<close>, nor for the frame just emitted; every other frame number keeps
  its buffer and its packet count exactly as they were, so a frame below the cursor
  that lies within the window stays buffered. The hypothesis on the packet counts holds
  in every state the receiver reaches (the lemmas above).
\<close>

theorem cleanup_evicts_below_window:
  assumes "cleanup_processed_frame st = (st', None)"
    and "counts_within_buffers st"
  shows "current_frame st' = current_frame st + 1
       \<and> (\<forall>f. f |\<in>| fmdom (frame_buffers st') \<or> f |\<in>| fmdom (frame_total_packets st')
              \<longrightarrow> current_frame st' - FRAME_BUFFER_SIZE \<le> f \<and> f \<noteq> current_frame st' - 1)
       \<and> (\<forall>f. current_frame st' - FRAME_BUFFER_SIZE \<le> f \<and> f \<noteq> current_frame st' - 1
              \<longrightarrow> fmlookup (frame_buffers st') f = fmlookup (frame_buffers st) f
                \<and> fmlookup (frame_total_packets st') f = fmlookup (frame_total_packets st) f)"
  using assms
  by (auto simp: counts_within_buffers_def cleanup_processed_frame_def Let_def
      split: if_splits)

text \<open>
  With the cursor at 7 and frames 1, 4 and 7 buffered: the cursor becomes 8, frame 7
  (just emitted) and frame 1 (below 8 - 5) are deleted, frame 4 keeps its buffer and
  its packet count.
\<close>

theorem cleanup_evicts_below_window_witness:
  "current_frame (fst (cleanup_processed_frame
      \<lparr>frame_buffers = fmupd 7 (fmupd 0 [] fmempty) (fmupd 4 (fmupd 0 [] fmempty)
                         (fmupd 1 (fmupd 0 [] fmempty) fmempty)),
        frame_total_packets = fmupd 7 1 (fmupd 4 2 (fmupd 1 1 fmempty)),
        current_frame = 7, emitted = [], warnings = []\<rparr>)) = 8
   \<and> 1 |\<notin>| fmdom (frame_buffers (fst (cleanup_processed_frame
      \<lparr>frame_buffers = fmupd 7 (fmupd 0 [] fmempty) (fmupd 4 (fmupd 0 [] fmempty)
                         (fmupd 1 (fmupd 0 [] fmempty) fmempty)),
        frame_total_packets = fmupd 7 1 (fmupd 4 2 (fmupd 1 1 fmempty)),
        current_frame = 7, emitted = [], warnings = []\<rparr>)))
   \<and> 7 |\<notin>| fmdom (frame_buffers (fst (cleanup_processed_frame
      \<lparr>frame_buffers = fmupd 7 (fmupd 0 [] fmempty) (fmupd 4 (fmupd 0 [] fmempty)
                         (fmupd 1 (fmupd 0 [] fmempty) fmempty)),
        frame_total_packets = fmupd 7 1 (fmupd 4 2 (fmupd 1 1 fmempty)),
        current_frame = 7, emitted = [], warnings = []\<rparr>)))
   \<and> fmlookup (frame_buffers (fst (cleanup_processed_frame
      \<lparr>frame_buffers = fmupd 7 (fmupd 0 [] fmempty) (fmupd 4 (fmupd 0 [] fmempty)
                         (fmupd 1 (fmupd 0 [] fmempty) fmempty)),
        frame_total_packets = fmupd 7 1 (fmupd 4 2 (fmupd 1 1 fmempty)),
        current_frame = 7, emitted = [], warnings = []\<rparr>))) 4 = Some (fmupd 0 [] fmempty)
   \<and> fmlookup (frame_total_packets (fst (cleanup_processed_frame
      \<lparr>frame_buffers = fmupd 7 (fmupd 0 [] fmempty) (fmupd 4 (fmupd 0 [] fmempty)
                         (fmupd 1 (fmupd 0 [] fmempty) fmempty)),
        frame_total_packets = fmupd 7 1 (fmupd 4 2 (fmupd 1 1 fmempty)),
        current_frame = 7, emitted = [], warnings = []\<rparr>))) 4 = Some 2"
proof -
  let ?st = "\<lparr>frame_buffers = fmupd 7 (fmupd 0 ([] :: bytes) fmempty)
                 (fmupd 4 (fmupd 0 [] fmempty) (fmupd 1 (fmupd 0 [] fmempty) fmempty)),
               frame_total_packets = fmupd 7 1 (fmupd 4 2 (fmupd 1 1 fmempty)),
               current_frame = 7, emitted = [], warnings = []\<rparr>"
  have a: "cleanup_processed_frame ?st = (fst (cleanup_processed_frame ?st), None)"
    by (simp add: cleanup_processed_frame_def Let_def)
  have b: "counts_within_buffers ?st"
    by (simp add: counts_within_buffers_def)
  from cleanup_evicts_below_window [OF a b] show ?thesis
    by (auto simp: eval_consts)
qed

text \<open>
  C5, as stated, would have every buffered frame below the cursor purged. A second copy
  of the packet of frame 0, ingested after frame 0 was emitted, is buffered again; when
  frame 1 is emitted the cursor is 2 and frame 0 is still buffered.
\<close>

theorem old_frame_stays_buffered_counterexample:
  "current_frame (ingest_all setup_frame_buffers
      [[0, 0, 0, 0, 0, 0, 0, 0, 0, 0, 0, 1], [0, 0, 0, 0, 0, 0, 0, 0, 0, 0, 0, 1],
       [0, 0, 0, 1, 0, 0, 0, 0, 0, 0, 0, 1]]) = 2
   \<and> fmlookup (frame_buffers (ingest_all setup_frame_buffers
      [[0, 0, 0, 0, 0, 0, 0, 0, 0, 0, 0, 1], [0, 0, 0, 0, 0, 0, 0, 0, 0, 0, 0, 1],
       [0, 0, 0, 1, 0, 0, 0, 0, 0, 0, 0, 1]])) 0 = Some (fmupd 0 [] fmempty)"
proof -
  let ?a = "[0, 0, 0, 0, 0, 0, 0, 0, 0, 0, 0, 1] :: bytes"
  let ?b = "[0, 0, 0, 1, 0, 0, 0, 0, 0, 0, 0, 1] :: bytes"
  let ?s1 = "\<lparr>frame_buffers = fmempty, frame_total_packets = fmempty,
               current_frame = 1, emitted = [(0, [])], warnings = []\<rparr>"
  let ?s2 = "\<lparr>frame_buffers = fmupd 0 (fmupd 0 [] fmempty) fmempty,
               frame_total_packets = fmupd 0 1 fmempty,
               current_frame = 1, emitted = [(0, [])], warnings = []\<rparr>"
  have 1: "fst (ingest setup_frame_buffers ?a) = ?s1"
    by (simp add: ingest_def process_packet_def fresh_def setup_frame_buffers_def eval_consts
        u32_of_def is_frame_complete_def reassemble_frame_def range_py_def buffer_eval
        process_complete_frames.simps cleanup_processed_frame_def process_frame_def Let_def)
  have 2: "fst (ingest ?s1 ?a) = ?s2"
    by (simp add: ingest_def process_packet_def eval_consts
        u32_of_def is_frame_complete_def reassemble_frame_def range_py_def buffer_eval
        process_complete_frames.simps cleanup_processed_frame_def process_frame_def Let_def)
  have 3: "current_frame (fst (ingest ?s2 ?b)) = 2
           \<and> fmlookup (frame_buffers (fst (ingest ?s2 ?b))) 0 = Some (fmupd 0 [] fmempty)"
    by (simp add: ingest_def process_packet_def eval_consts
        u32_of_def is_frame_complete_def reassemble_frame_def range_py_def buffer_eval
        process_complete_frames.simps cleanup_processed_frame_def process_frame_def Let_def)
  from 1 2 3 show ?thesis by simp
qed

section \<open>Head-of-line blocking\<close>

lemma reassemble_loop_missing:
  "i \<in> set indices \<Longrightarrow> fmlookup frame_packets i = None \<Longrightarrow>
   reassemble_loop frame_packets indices frame_data = Inl KeyError"
  by (induction indices arbitrary: frame_data) (auto split: option.splits)

lemma range_py_member: "i \<in> set (range_py n) \<longleftrightarrow> 0 \<le> i \<and> i < n"
proof
  assume "i \<in> set (range_py n)"
  then show "0 \<le> i \<and> i < n" by (auto simp: range_py_def)
next
  assume a: "0 \<le> i \<and> i < n"
  then have "nat i \<in> set [0..<nat n]" by simp
  then have "int (nat i) \<in> set (range_py n)" unfolding range_py_def by (simp only: set_map image_eqI)
  with a show "i \<in> set (range_py n)" by simp
qed

lemma head_lacks_not_emittable:
  assumes "0 \<le> i" "i < tp" "head_lacks c i tp st"
  shows "\<not> head_emittable st"
proof
  assume "head_emittable st"
  then obtain fp t frame_data where
    a: "fmlookup (frame_buffers st) (current_frame st) = Some fp"
    and b: "fmlookup (frame_total_packets st) (current_frame st) = Some t"
    and d: "reassemble_frame fp t = Inr frame_data"
    by (auto simp: head_emittable_def split: option.splits sum.splits)
  from assms(3) a b have "t = tp" "fmlookup fp i = None"
    by (auto simp: head_lacks_def)
  moreover from assms(1,2) have "i \<in> set (range_py tp)" by (simp add: range_py_member)
  ultimately have "reassemble_frame fp t = Inl KeyError"
    by (simp add: reassemble_frame_def reassemble_loop_missing)
  with d show False by simp
qed

lemma head_lacks_warnings [simp]:
  "head_lacks c i tp (st\<lparr>warnings := w\<rparr>) = head_lacks c i tp st"
  by (simp add: head_lacks_def)

lemma head_lacks_stored:
  assumes "head_lacks c i tp st"
    and "frame_number \<noteq> c \<or> (total_packets = tp \<and> packet_num \<noteq> i)"
  shows "head_lacks c i tp (stored st frame_number packet_num total_packets packet_data)"
  using assms by (auto simp: head_lacks_def stored_def split: option.splits)

lemma ingest_head_lacks:
  assumes "0 \<le> i" "i < tp" "head_lacks c i tp st" "withholds c i tp datagram"
  shows "head_lacks c i tp (fst (ingest st datagram))
       \<and> emitted (fst (ingest st datagram)) = emitted st"
proof (cases "length datagram < 12")
  case True
  with assms(3) show ?thesis by (simp add: ingest_short)
next
  case False
  then have "12 \<le> length datagram" by simp
  then obtain a b t where
    u: "unpack_III (take 12 datagram) = Inr (a, b, t)"
    and ing: "ingest st datagram =
       process_complete_frames (stored st a b t (drop 12 (take 1400 datagram)))"
    by (rule ingest_long [where st = st])
  let ?st2 = "stored st a b t (drop 12 (take 1400 datagram))"
  from assms(4) u have "a \<noteq> c \<or> (t = tp \<and> b \<noteq> i)" by (simp add: withholds_def)
  with assms(3) have hl: "head_lacks c i tp ?st2" by (rule head_lacks_stored)
  with assms(1,2) have "\<not> head_emittable ?st2" by (rule head_lacks_not_emittable)
  from not_emittable_warnings [OF this] obtain w
    where "fst (process_complete_frames ?st2) = ?st2\<lparr>warnings := w\<rparr>" by blast
  with hl ing show ?thesis by (simp add: stored_def)
qed

text \<open>
  C6: while the packet with index \<open>i\<close> of the head frame is not ingested (the packets of
  the head frame all stating the frame's packet count \<open>tp\<close>, with \<open>i\<close> below it), no
  frame is emitted and the cursor stays, whatever else arrives.
\<close>

theorem head_of_line_blocking:
  assumes "0 \<le> i" and "i < tp"
    and "head_lacks c i tp st"
    and "list_all (withholds c i tp) datagrams"
  shows "current_frame (ingest_all st datagrams) = c
       \<and> emitted (ingest_all st datagrams) = emitted st"
  using assms(3,4)
proof (induction datagrams arbitrary: st)
  case Nil
  then show ?case by (simp add: head_lacks_def)
next
  case (Cons d ds)
  from Cons.prems have w: "withholds c i tp d" and rest: "list_all (withholds c i tp) ds"
    by simp_all
  from ingest_head_lacks [OF assms(1,2) Cons.prems(1) w]
  have hl: "head_lacks c i tp (fst (ingest st d))"
    and em: "emitted (fst (ingest st d)) = emitted st" by simp_all
  from Cons.IH [OF hl rest] em show ?case by simp
qed

theorem head_of_line_blocking_witness:
  "current_frame (ingest_all (fresh 0)
      [[0, 0, 0, 0, 0, 0, 0, 1, 0, 0, 0, 2], [0, 0, 0, 1, 0, 0, 0, 0, 0, 0, 0, 1]]) = 0
   \<and> emitted (ingest_all (fresh 0)
      [[0, 0, 0, 0, 0, 0, 0, 1, 0, 0, 0, 2], [0, 0, 0, 1, 0, 0, 0, 0, 0, 0, 0, 1]]) = []"
proof -
  have a: "head_lacks 0 0 2 (fresh 0)"
    by (simp add: head_lacks_def fresh_def)
  have b: "list_all (withholds 0 0 2)
             [[0, 0, 0, 0, 0, 0, 0, 1, 0, 0, 0, 2], [0, 0, 0, 1, 0, 0, 0, 0, 0, 0, 0, 1]]"
    by (simp add: withholds_def u32_of_def)
  from head_of_line_blocking [OF _ _ a b] show ?thesis by (simp add: fresh_def)
qed

section \<open>Packetizing\<close>

lemma ceil_div:
  fixes L d :: int
  assumes "0 < d"
  shows "(L + d - 1) div d = \<lceil>real_of_int L / real_of_int d\<rceil>"
proof -
  define z where "z = (L + d - 1) div d"
  define r where "r = (L + d - 1) mod d"
  have eq: "L + d - 1 = d * z + r" by (simp add: z_def r_def)
  have r: "0 \<le> r" "r < d" using assms by (simp_all add: r_def)
  have up: "L \<le> z * d" using eq r by (simp add: mult.commute)
  have "(z - 1) * d = d * z - d" by (simp add: algebra_simps)
  with eq r have lo: "(z - 1) * d < L" by simp
  have dpos: "0 < real_of_int d" using assms by simp
  have "real_of_int L \<le> real_of_int (z * d)" using up by (simp only: of_int_le_iff)
  then have a: "real_of_int L / real_of_int d \<le> real_of_int z"
    using dpos by (simp add: pos_divide_le_eq)
  have "real_of_int ((z - 1) * d) < real_of_int L" using lo by (simp only: of_int_less_iff)
  then have b: "real_of_int z - 1 < real_of_int L / real_of_int d"
    using dpos by (simp add: pos_less_divide_eq)
  from a b have "\<lceil>real_of_int L / real_of_int d\<rceil> = z" by (intro ceiling_unique) simp_all
  then show ?thesis by (simp add: z_def)
qed

lemma slice_bound_nat: "slice_bound (int n) (int a) = min a n"
  by (simp add: slice_bound_def)

lemma py_slice_nat:
  "py_slice xs (int a) (int b) = take (min b (length xs) - min a (length xs)) (drop (min a (length xs)) xs)"
  by (simp add: py_slice_def Let_def slice_bound_nat)

lemma chunk_of_nat:
  assumes "max_packet_size - header_size = int d"
  shows "chunk_of max_packet_size header_size data (int k) = take d (drop (k * d) data)"
proof -
  have s: "int k * int d = int (k * d)" by simp
  have e: "min (int (k * d) + int d) (int (length data)) = int (min (k * d + d) (length data))"
    by (simp only: of_nat_add [symmetric] of_nat_min)
  have "chunk_of max_packet_size header_size data (int k)
        = py_slice data (int (k * d)) (int (min (k * d + d) (length data)))"
    unfolding chunk_of_def Let_def assms s e ..
  also have "\<dots> = take d (drop (k * d) data)"
  proof (cases "k * d \<le> length data")
    case True
    then show ?thesis unfolding py_slice_nat by (simp add: min_def)
  next
    case False
    then show ?thesis unfolding py_slice_nat by (simp add: min_def)
  qed
  finally show ?thesis .
qed

lemma send_packets_ok:
  assumes "u32_ok frame_number" "u32_ok total_packets"
    and "max_packet_size - header_size = int d"
    and "\<forall>k \<in> set ks. int k < total_packets"
  shows "send_packets max_packet_size header_size frame_number data total_packets (map int ks)
         = (map (\<lambda>k. packet frame_number (int k) total_packets (take d (drop (k * d) data))) ks,
            None)"
  using assms(4)
proof (induction ks)
  case Nil
  then show ?case by simp
next
  case (Cons k ks)
  then have "u32_ok (int k)" using assms(2) by (simp add: u32_ok_def)
  with Cons assms(1,2) show ?case
    by (simp add: pack_III_def packet_def chunk_of_nat [OF assms(3)])
qed

lemma concat_chunks:
  "concat (map (\<lambda>k. take d (drop (k * d) xs)) [0..<n]) = take (n * d) xs"
proof (induction n)
  case 0
  then show ?case by simp
next
  case (Suc n)
  have "take (n * d + d) xs = take (n * d) xs @ take d (drop (n * d) xs)"
    by (rule take_add)
  with Suc show ?case by (simp add: add.commute)
qed

lemma ceil_bounds:
  fixes L d :: nat
  assumes "0 < d"
  defines "n \<equiv> nat \<lceil>real L / real d\<rceil>"
  shows "L \<le> n * d" and "0 < L \<Longrightarrow> (n - 1) * d < L" and "0 < L \<longleftrightarrow> 0 < n"
proof -
  define x where "x = real L / real d"
  have x0: "0 \<le> x" by (simp add: x_def)
  then have c0: "0 \<le> \<lceil>x\<rceil>" by simp
  then have n: "real n = real_of_int \<lceil>x\<rceil>" by (simp add: n_def x_def)
  have dpos: "0 < real d" using assms(1) by simp
  have "x \<le> real n" unfolding n by (rule le_of_int_ceiling)
  then have "real L \<le> real n * real d" using dpos by (simp add: x_def pos_divide_le_eq)
  then have "real L \<le> real (n * d)" by simp
  then show up: "L \<le> n * d" by (simp only: of_nat_le_iff)
  have lt: "real n - 1 < x" unfolding n using ceiling_correct [of x] by simp
  show pos: "0 < L \<longleftrightarrow> 0 < n"
  proof
    assume "0 < L"
    with up show "0 < n" by (cases n) simp_all
  next
    assume "0 < n"
    then have "0 < \<lceil>x\<rceil>" by (simp add: n_def x_def)
    then have "0 < x" by (simp add: ceiling_less_iff less_ceiling_iff)
    then show "0 < L" using dpos by (simp add: x_def zero_less_divide_iff)
  qed
  show "(n - 1) * d < L" if "0 < L"
  proof -
    from that pos have "0 < n" by simp
    then have "real (n - 1) = real n - 1" by (simp add: of_nat_diff)
    with lt have "real (n - 1) < real L / real d" by (simp add: x_def)
    then have "real (n - 1) * real d < real L" using dpos by (simp add: pos_less_divide_eq)
    then have "real ((n - 1) * d) < real L" by simp
    then show ?thesis by (simp only: of_nat_less_iff)
  qed
qed

lemma split_eq:
  assumes "header_size < max_packet_size" "u32_ok frame_number"
    and "d = nat (max_packet_size - header_size)"
    and "n = nat \<lceil>real (length data) / real_of_int (max_packet_size - header_size)\<rceil>"
    and "u32_ok (int n)"
  shows "split max_packet_size header_size frame_number data
         = (map (\<lambda>k. packet frame_number (int k) (int n) (take d (drop (k * d) data))) [0..<n],
            None)"
proof -
  have dd: "max_packet_size - header_size = int d" using assms(1,3) by simp
  have pos: "0 < max_packet_size - header_size" using assms(1) by simp
  have tp: "(int (length data) + max_packet_size - header_size - 1)
              div (max_packet_size - header_size)
            = \<lceil>real (length data) / real_of_int (max_packet_size - header_size)\<rceil>"
    using ceil_div [OF pos, of "int (length data)"] by (simp add: algebra_simps)
  have "0 < real_of_int (max_packet_size - header_size)"
    using pos by (simp only: of_int_0_less_iff)
  then have "0 \<le> real (length data) / real_of_int (max_packet_size - header_size)"
    by (intro divide_nonneg_pos) simp_all
  from ceiling_mono [OF this]
  have "0 \<le> \<lceil>real (length data) / real_of_int (max_packet_size - header_size)\<rceil>"
    by simp
  then have n: "\<lceil>real (length data) / real_of_int (max_packet_size - header_size)\<rceil> = int n"
    using assms(4) by simp
  have "split max_packet_size header_size frame_number data
        = send_packets max_packet_size header_size frame_number data (int n) (map int [0..<n])"
    using pos by (simp add: split_def total_packets_of_def tp n range_py_def del: of_int_diff)
  also have "\<dots> = (map (\<lambda>k. packet frame_number (int k) (int n) (take d (drop (k * d) data)))
                      [0..<n], None)"
    by (rule send_packets_ok [OF assms(2,5) dd]) simp
  finally show ?thesis .
qed

text \<open>
  C4, amended: for \<open>max_packet_size > header_size\<close>, a frame number and a packet count
  that fit the unsigned 32-bit header fields, the packetizer hands over exactly
  \<open>n = \<lceil>len(payload) / (max_packet_size - header_size)\<rceil>\<close> packets, in the order of the
  packet indices \<open>0, ..., n - 1\<close>; packet \<open>k\<close> is the header
  \<open>(frame_number, k, n)\<close> followed by the slice of the payload that starts at
  \<open>k * (max_packet_size - header_size)\<close>; the slices concatenated in this order are the
  payload; every slice but the last has \<open>max_packet_size - header_size\<close> bytes and the
  last has the rest; and \<open>n \<ge> 1\<close> exactly when the payload is not empty.
\<close>

theorem split_packets:
  fixes max_packet_size header_size frame_number :: int and data :: bytes
  defines "d \<equiv> nat (max_packet_size - header_size)"
    and "n \<equiv> nat \<lceil>real (length data) / real_of_int (max_packet_size - header_size)\<rceil>"
  assumes "header_size < max_packet_size" and "u32_ok frame_number" and "u32_ok (int n)"
  shows "split max_packet_size header_size frame_number data
           = (map (\<lambda>k. be32 frame_number @ be32 (int k) @ be32 (int n)
                          @ take d (drop (k * d) data)) [0..<n], None)
       \<and> concat (map (\<lambda>k. take d (drop (k * d) data)) [0..<n]) = data
       \<and> (\<forall>k<n. length (take d (drop (k * d) data))
                   = (if Suc k < n then d else length data - (n - 1) * d))
       \<and> (1 \<le> n \<longleftrightarrow> data \<noteq> [])"
proof -
  have dpos: "0 < d" using assms(3) by (simp add: d_def)
  have rd: "real_of_int (max_packet_size - header_size) = real d"
    using assms(3) by (simp add: d_def)
  have n': "n = nat \<lceil>real (length data) / real d\<rceil>" by (simp only: n_def rd)
  note b = ceil_bounds [OF dpos, of "length data", folded n']
  have 1: "split max_packet_size header_size frame_number data
           = (map (\<lambda>k. be32 frame_number @ be32 (int k) @ be32 (int n)
                          @ take d (drop (k * d) data)) [0..<n], None)"
    using split_eq [OF assms(3,4) meta_eq_to_obj_eq [OF d_def] meta_eq_to_obj_eq [OF n_def]
        assms(5)]
    by (simp add: packet_def)
  have 2: "concat (map (\<lambda>k. take d (drop (k * d) data)) [0..<n]) = data"
    using b(1) by (simp add: concat_chunks)
  have 3: "length (take d (drop (k * d) data))
             = (if Suc k < n then d else length data - (n - 1) * d)" if "k < n" for k
  proof (cases "Suc k < n")
    case True
    then have "Suc k \<le> n - 1" by simp
    then have "Suc k * d \<le> (n - 1) * d" by (rule mult_le_mono1)
    moreover have "(n - 1) * d < length data"
      using b(2) b(3) True by simp
    ultimately have "k * d + d < length data" by simp
    with True show ?thesis by simp
  next
    case False
    with that have k: "k = n - 1" by simp
    have "length data \<le> (n - 1) * d + d"
      using b(1) that by (cases n) (simp_all add: add.commute)
    with False k show ?thesis by simp
  qed
  have 4: "1 \<le> n \<longleftrightarrow> data \<noteq> []" using b(3) by auto
  from 1 2 3 4 show ?thesis by blast
qed

text \<open>A payload of three bytes goes out as one packet.\<close>

theorem split_packets_witness:
  "fst (split 1400 12 7 [1, 2, 3]) = [be32 7 @ be32 0 @ be32 1 @ [1, 2, 3]]"
proof -
  have n: "nat \<lceil>real (length [1 :: byte, 2, 3]) / real_of_int (1400 - 12)\<rceil> = 1"
    by (simp add: ceiling_eq_iff)
  have a: "(12 :: int) < 1400" by simp
  have b: "u32_ok 7" by (simp add: u32_ok_def)
  have c: "u32_ok (int (nat \<lceil>real (length [1 :: byte, 2, 3]) / real_of_int (1400 - 12)\<rceil>))"
    unfolding n by (simp add: u32_ok_def)
  from split_packets [OF a b c] show ?thesis unfolding n by simp
qed

text \<open>
  C4, as stated, has \<open>total_packets \<ge> 1\<close> for every payload. For the empty payload the
  packet count is \<open>(0 + 1400 - 12 - 1) div 1388 = 0\<close> and no packet is sent.
\<close>

theorem empty_payload_no_packet_counterexample:
  "total_packets_of MAX_UDP_SIZE HEADER_SIZE [] = Inr 0
   \<and> send_frame 0 [] = ([], None)"
  by (simp add: send_frame_def split_def total_packets_of_def eval_consts range_py_def)

section \<open>One frame, in any order and with repetitions\<close>

lemma reassemble_loop_all:
  "\<forall>i\<in>set indices. fmlookup frame_packets i = Some (f i) \<Longrightarrow>
   reassemble_loop frame_packets indices frame_data
     = Inr (frame_data @ concat (map f indices))"
  by (induction indices arbitrary: frame_data) simp_all

lemma reassemble_frame_all:
  assumes "\<forall>j<length chunks. fmlookup m (int j) = Some (chunks ! j)"
  shows "reassemble_frame m (int (length chunks)) = Inr (concat chunks)"
proof -
  have "reassemble_loop m (map int [0..<length chunks]) []
        = Inr ([] @ concat (map (\<lambda>i. chunks ! nat i) (map int [0..<length chunks])))"
    by (rule reassemble_loop_all) (use assms in auto)
  moreover have "map (\<lambda>i. chunks ! nat i) (map int [0..<length chunks]) = chunks"
    by (simp add: comp_def map_nth)
  ultimately show ?thesis by (simp add: reassemble_frame_def range_py_def)
qed

lemma fcard_fmdom: "fcard (fmdom m) = card (fmdom' m)"
  by (simp add: fcard.rep_eq fmdom'_alt_def)

lemma complete_iff_all:
  assumes "fmdom' m = int ` J" "J \<subseteq> {0..<n}"
  shows "is_frame_complete m (int n) \<longleftrightarrow> J = {0..<n}"
proof -
  have fin: "finite J" using assms(2) by (rule finite_subset) simp
  have "card (fmdom' m) = card J"
    unfolding assms(1) by (rule card_image) (simp add: inj_on_def)
  then have "is_frame_complete m (int n) \<longleftrightarrow> card J = n"
    by (simp add: is_frame_complete_def fcard_fmdom)
  also have "\<dots> \<longleftrightarrow> J = {0..<n}"
  proof
    assume "card J = n"
    then have "card J = card {0..<n}" by simp
    with assms(2) show "J = {0..<n}" by (intro card_subset_eq) simp_all
  next
    assume "J = {0..<n}"
    then show "card J = n" by simp
  qed
  finally show ?thesis .
qed

lemma ingest_packet:
  assumes "u32_ok c" "u32_ok j" "u32_ok n" "length chunk \<le> 1388"
  shows "ingest st (packet c j n chunk) = process_complete_frames (stored st c j n chunk)"
proof -
  let ?d = "packet c j n chunk"
  have len: "length ?d = 12 + length chunk" by (simp add: packet_def be32_def)
  then have t: "take 1400 ?d = ?d" using assms(4) by simp
  have u: "unpack_III (take 12 ?d) = Inr (c, j, n)"
    unfolding packet_def by (rule unpack_pack [OF assms(1-3)])
  have dr: "drop 12 ?d = chunk" by (simp add: packet_def be32_def)
  from len have "12 \<le> length ?d" by simp
  then obtain a b t' where
    u': "unpack_III (take 12 ?d) = Inr (a, b, t')"
    and ing: "ingest st ?d = process_complete_frames (stored st a b t' (drop 12 (take 1400 ?d)))"
    by (rule ingest_long [where st = st])
  from u u' have "a = c" "b = j" "t' = n" by simp_all
  with ing t dr show ?thesis by simp
qed

lemma collecting_warnings [simp]:
  "collecting c chunks J (st\<lparr>warnings := w\<rparr>) = collecting c chunks J st"
  by (simp add: collecting_def)

lemma delivered_warnings [simp]:
  "delivered c chunks (st\<lparr>warnings := w\<rparr>) = delivered c chunks st"
  by (simp add: delivered_def)

lemma pcf_emit:
  assumes "fmlookup (frame_buffers st) (current_frame st) = Some fp"
    and "fmlookup (frame_total_packets st) (current_frame st) = Some tp"
    and "is_frame_complete fp tp"
    and "reassemble_frame fp tp = Inr frame_data"
  shows "process_complete_frames st
         = process_complete_frames (fst (cleanup_processed_frame (process_frame st frame_data)))"
  using assms cleanup_emit [OF assms(1,2), of frame_data]
  by (simp add: process_complete_frames.simps [of st])

lemma emit_fields:
  fixes frame_data :: bytes
  assumes "fmlookup (frame_buffers st) (current_frame st) = Some fp"
    and "fmlookup (frame_total_packets st) (current_frame st) = Some tp"
  defines "st' \<equiv> fst (cleanup_processed_frame (process_frame st frame_data))"
  shows "current_frame st' = current_frame st + 1"
    and "emitted st' = emitted st @ [(current_frame st, frame_data)]"
    and "fmlookup (frame_buffers st) f = None \<Longrightarrow> fmlookup (frame_buffers st') f = None"
    and "fmlookup (frame_buffers st') (current_frame st) = None"
  unfolding st'_def cleanup_emit [OF assms(1,2)] by simp_all

lemma collecting_stored:
  assumes "collecting c chunks J st" "j < length chunks"
  shows "collecting c chunks (insert j J) (stored st c (int j) (int (length chunks)) (chunks ! j))"
proof (cases "J = {}")
  case True
  with assms show ?thesis by (auto simp: collecting_def stored_def)
next
  case False
  with assms(1) obtain m where
    m: "fmlookup (frame_buffers st) c = Some m" "fmdom' m = int ` J"
    "\<forall>j\<in>J. fmlookup m (int j) = Some (chunks ! j)"
    by (auto simp: collecting_def)
  with assms False show ?thesis
    by (auto simp: collecting_def stored_def)
qed

lemma collecting_step:
  assumes c: "u32_ok c" and n: "u32_ok (int (length chunks))"
    and small: "\<forall>chunk\<in>set chunks. length chunk \<le> 1388"
    and j: "j < length chunks"
    and J: "J \<subseteq> {0..<length chunks}"
    and col: "collecting c chunks J st"
  defines "st' \<equiv> fst (ingest st (packet c (int j) (int (length chunks)) (chunks ! j)))"
  shows "if insert j J = {0..<length chunks} then delivered c chunks st'
         else collecting c chunks (insert j J) st'"
proof -
  let ?n = "length chunks"
  let ?st2 = "stored st c (int j) (int ?n) (chunks ! j)"
  have uj: "u32_ok (int j)" using j n by (simp add: u32_ok_def)
  have sm: "length (chunks ! j) \<le> 1388" using small j by simp
  have ing: "st' = fst (process_complete_frames ?st2)"
    unfolding st'_def by (simp add: ingest_packet [OF c uj n sm])
  have col2: "collecting c chunks (insert j J) ?st2"
    using col j by (rule collecting_stored)
  then obtain m where
    cur: "current_frame ?st2 = c" and em: "emitted ?st2 = []"
    and others: "\<forall>f. f \<noteq> c \<longrightarrow> fmlookup (frame_buffers ?st2) f = None"
    and tp: "fmlookup (frame_total_packets ?st2) c = Some (int ?n)"
    and m: "fmlookup (frame_buffers ?st2) c = Some m" "fmdom' m = int ` insert j J"
    "\<forall>i\<in>insert j J. fmlookup m (int i) = Some (chunks ! i)"
    by (auto simp: collecting_def)
  have J': "insert j J \<subseteq> {0..<?n}" using J j by simp
  show ?thesis
  proof (cases "insert j J = {0..<?n}")
    case False
    with complete_iff_all [OF m(2) J'] have "\<not> is_frame_complete m (int ?n)" by simp
    with m(1) tp cur have "\<not> head_emittable ?st2"
      by (simp add: head_emittable_def)
    from not_emittable_warnings [OF this] obtain w
      where "fst (process_complete_frames ?st2) = ?st2\<lparr>warnings := w\<rparr>" by blast
    with col2 ing False show ?thesis by simp
  next
    case True
    with complete_iff_all [OF m(2) J'] have comp: "is_frame_complete m (int ?n)" by simp
    from True m(3) have "\<forall>i<?n. fmlookup m (int i) = Some (chunks ! i)" by auto
    then have re: "reassemble_frame m (int ?n) = Inr (concat chunks)"
      by (rule reassemble_frame_all)
    let ?st3 = "fst (cleanup_processed_frame (process_frame ?st2 (concat chunks)))"
    have m': "fmlookup (frame_buffers ?st2) (current_frame ?st2) = Some m"
      and tp': "fmlookup (frame_total_packets ?st2) (current_frame ?st2) = Some (int ?n)"
      using m(1) tp cur by simp_all
    have p: "process_complete_frames ?st2 = process_complete_frames ?st3"
      using m' tp' comp re by (rule pcf_emit)
    note f = emit_fields [OF m' tp', where frame_data = "concat chunks"]
    have none: "fmlookup (frame_buffers ?st3) f = None" for f
    proof (cases "f = c")
      case True
      with f(4) cur show ?thesis by simp
    next
      case False
      with others f(3) show ?thesis by blast
    qed
    have del: "delivered c chunks ?st3"
      using f(1,2) cur em none by (simp add: delivered_def)
    have "\<not> head_emittable ?st3" using none by (simp add: head_emittable_def)
    from not_emittable_warnings [OF this] obtain w
      where "fst (process_complete_frames ?st3) = ?st3\<lparr>warnings := w\<rparr>" by blast
    with del ing p True show ?thesis by simp
  qed
qed

lemma delivered_step:
  assumes c: "u32_ok c" and n: "u32_ok (int (length chunks))"
    and small: "\<forall>chunk\<in>set chunks. length chunk \<le> 1388"
    and j: "j < length chunks"
    and del: "delivered c chunks st"
  shows "delivered c chunks (fst (ingest st (packet c (int j) (int (length chunks)) (chunks ! j))))"
proof -
  let ?n = "length chunks"
  let ?st2 = "stored st c (int j) (int ?n) (chunks ! j)"
  have uj: "u32_ok (int j)" using j n by (simp add: u32_ok_def)
  have sm: "length (chunks ! j) \<le> 1388" using small j by simp
  have ing: "ingest st (packet c (int j) (int ?n) (chunks ! j)) = process_complete_frames ?st2"
    by (rule ingest_packet [OF c uj n sm])
  have del2: "delivered c chunks ?st2" using del by (simp add: delivered_def stored_def)
  then have "\<not> head_emittable ?st2" by (simp add: head_emittable_def delivered_def)
  from not_emittable_warnings [OF this] obtain w
    where "fst (process_complete_frames ?st2) = ?st2\<lparr>warnings := w\<rparr>" by blast
  with del2 ing show ?thesis by simp
qed

lemma delivered_run:
  assumes c: "u32_ok c" and n: "u32_ok (int (length chunks))"
    and small: "\<forall>chunk\<in>set chunks. length chunk \<le> 1388"
  shows "delivered c chunks st \<Longrightarrow> set js \<subseteq> {0..<length chunks} \<Longrightarrow>
         delivered c chunks
           (ingest_all st (map (\<lambda>k. packet c (int k) (int (length chunks)) (chunks ! k)) js))"
proof (induction js arbitrary: st)
  case Nil
  then show ?case by simp
next
  case (Cons j js)
  from Cons.prems(2) have j: "j < length chunks" and js: "set js \<subseteq> {0..<length chunks}"
    by simp_all
  from delivered_step [OF c n small j Cons.prems(1)] Cons.IH js show ?case by simp
qed

lemma collecting_run:
  assumes c: "u32_ok c" and n: "u32_ok (int (length chunks))"
    and small: "\<forall>chunk\<in>set chunks. length chunk \<le> 1388"
  shows "collecting c chunks J st \<Longrightarrow> J \<subseteq> {0..<length chunks} \<Longrightarrow>
         J \<noteq> {0..<length chunks} \<Longrightarrow> set js \<subseteq> {0..<length chunks} \<Longrightarrow>
         (if J \<union> set js = {0..<length chunks}
          then delivered c chunks
                 (ingest_all st (map (\<lambda>k. packet c (int k) (int (length chunks)) (chunks ! k)) js))
          else collecting c chunks (J \<union> set js)
                 (ingest_all st (map (\<lambda>k. packet c (int k) (int (length chunks)) (chunks ! k)) js)))"
proof (induction js arbitrary: J st)
  case Nil
  then show ?case by simp
next
  case (Cons j js)
  let ?pk = "\<lambda>k. packet c (int k) (int (length chunks)) (chunks ! k)"
  let ?st1 = "fst (ingest st (?pk j))"
  from Cons.prems(4) have j: "j < length chunks" and js: "set js \<subseteq> {0..<length chunks}"
    by simp_all
  have u: "J \<union> set (j # js) = insert j J \<union> set js" by simp
  have step: "if insert j J = {0..<length chunks} then delivered c chunks ?st1
              else collecting c chunks (insert j J) ?st1"
    by (rule collecting_step [OF c n small j Cons.prems(2,1)])
  show ?case
  proof (cases "insert j J = {0..<length chunks}")
    case True
    with step have "delivered c chunks ?st1" by simp
    from delivered_run [OF c n small this js]
    have del: "delivered c chunks (ingest_all st (map ?pk (j # js)))" by simp
    from True js have eq: "J \<union> set (j # js) = {0..<length chunks}" by auto
    show ?thesis unfolding eq using del by simp
  next
    case False
    with step have col: "collecting c chunks (insert j J) ?st1" by simp
    have sub: "insert j J \<subseteq> {0..<length chunks}" using Cons.prems(2) j by simp
    have eq: "ingest_all st (map ?pk (j # js)) = ingest_all ?st1 (map ?pk js)" by simp
    from Cons.IH [OF col sub False js] show ?thesis unfolding u eq .
  qed
qed

lemma list_of_image:
  "set ys \<subseteq> f ` A \<Longrightarrow> \<exists>xs. set xs \<subseteq> A \<and> ys = map f xs"
proof (induction ys)
  case Nil
  have "set [] \<subseteq> A \<and> [] = map f []" by simp
  then show ?case by (rule exI)
next
  case (Cons y ys)
  from Cons.prems have y: "y \<in> f ` A" and ys: "set ys \<subseteq> f ` A" by simp_all
  from Cons.IH [OF ys] obtain xs where xs: "set xs \<subseteq> A" "ys = map f xs" by blast
  from y obtain x where x: "y = f x" "x \<in> A" by (rule imageE)
  have "set (x # xs) \<subseteq> A \<and> y # ys = map f (x # xs)" using x xs by simp
  then show ?case by (rule exI)
qed

lemma packet_index_inj:
  assumes "u32_ok c" "u32_ok n" "u32_ok i" "u32_ok j"
    and "packet c i n chunk = packet c j n chunk'"
  shows "i = j"
proof -
  have "unpack_III (take 12 (packet c i n chunk)) = Inr (c, i, n)"
    unfolding packet_def by (rule unpack_pack [OF assms(1,3,2)])
  moreover have "unpack_III (take 12 (packet c j n chunk')) = Inr (c, j, n)"
    unfolding packet_def by (rule unpack_pack [OF assms(1,4,2)])
  ultimately show ?thesis using assms(5) by simp
qed

lemma fresh_collecting: "collecting c chunks {} (fresh c)"
  by (simp add: collecting_def fresh_def)

lemma ingest_frame_set:
  assumes c: "u32_ok c" and ne: "chunks \<noteq> []" and n: "u32_ok (int (length chunks))"
    and small: "\<forall>chunk\<in>set chunks. length chunk \<le> 1388"
    and ds: "set datagrams = set (frame_packets_of c chunks)"
  shows "emitted (ingest_all (fresh c) datagrams) = [(c, concat chunks)]"
proof -
  let ?n = "length chunks"
  let ?pk = "\<lambda>k. packet c (int k) (int ?n) (chunks ! k)"
  have img: "set (frame_packets_of c chunks) = ?pk ` {0..<?n}"
    by (simp add: frame_packets_of_def)
  with ds have "set datagrams \<subseteq> ?pk ` {0..<?n}" by simp
  from list_of_image [OF this] obtain js where
    js: "set js \<subseteq> {0..<?n}" "datagrams = map ?pk js" by blast
  have "{0..<?n} \<subseteq> set js"
  proof
    fix k assume k: "k \<in> {0..<?n}"
    then have "?pk k \<in> set datagrams" using ds img by blast
    with js(2) obtain j where j: "j \<in> set js" "?pk k = ?pk j" by auto
    from j(1) js(1) have "j < ?n" by auto
    with k n have "u32_ok (int k)" "u32_ok (int j)" by (simp_all add: u32_ok_def)
    from packet_index_inj [OF c n this j(2)] j(1) show "k \<in> set js" by simp
  qed
  with js(1) have all: "{} \<union> set js = {0..<?n}" by auto
  have nonempty: "{} \<noteq> {0..<?n}" using ne by simp
  from collecting_run [OF c n small fresh_collecting _ nonempty js(1)] all
  have "delivered c chunks (ingest_all (fresh c) (map ?pk js))" by simp
  with js(2) show ?thesis by (simp add: delivered_def)
qed

text \<open>
  C9: take the complete packet set of one frame (at least one chunk, every chunk within
  the datagram size, frame number and packet count within the header fields) and a
  receiver with empty buffers whose cursor is at this frame. Every sequence of datagrams
  that consists of these packets, each at least once, in any order and with any number
  of repetitions, makes the receiver emit the frame once, with the chunks concatenated
  in index order: the same payload as the packets ingested once each in index order.
\<close>

theorem any_order_any_multiplicity:
  assumes "u32_ok c" and "chunks \<noteq> []" and "u32_ok (int (length chunks))"
    and "list_all (\<lambda>chunk. int (length chunk) \<le> MAX_UDP_SIZE - HEADER_SIZE) chunks"
    and "set datagrams = set (frame_packets_of c chunks)"
  shows "emitted (ingest_all (fresh c) datagrams) = [(c, concat chunks)]
       \<and> emitted (ingest_all (fresh c) datagrams)
           = emitted (ingest_all (fresh c) (frame_packets_of c chunks))"
proof -
  from assms(4) have small: "\<forall>chunk\<in>set chunks. length chunk \<le> 1388"
    by (simp add: list_all_iff eval_consts)
  from ingest_frame_set [OF assms(1-3) small assms(5)]
    ingest_frame_set [OF assms(1-3) small refl]
  show ?thesis by simp
qed

text \<open>Two packets, the second first and once more at the end.\<close>

theorem any_order_any_multiplicity_witness:
  "emitted (ingest_all (fresh 0) [packet 0 1 2 [2], packet 0 0 2 [1], packet 0 1 2 [2]])
     = [(0, [1, 2])]"
proof -
  have a: "u32_ok 0" by (simp add: u32_ok_def)
  have b: "[[1], [2 :: byte]] \<noteq> []" by simp
  have c: "u32_ok (int (length [[1], [2 :: byte]]))" by (simp add: u32_ok_def)
  have d: "list_all (\<lambda>chunk. int (length chunk) \<le> MAX_UDP_SIZE - HEADER_SIZE) [[1], [2 :: byte]]"
    by (simp add: eval_consts)
  have f: "frame_packets_of 0 [[1], [2]] = [packet 0 0 2 [1], packet 0 1 2 [2]]"
    by (simp add: frame_packets_of_def)
  have e: "set [packet 0 1 2 [2], packet 0 0 2 [1], packet 0 1 2 [2]]
           = set (frame_packets_of 0 [[1], [2]])"
    unfolding f by (simp add: insert_commute)
  from any_order_any_multiplicity [OF a b c d e]
  have "emitted (ingest_all (fresh 0) [packet 0 1 2 [2], packet 0 0 2 [1], packet 0 1 2 [2]])
          = [(0, concat [[1], [2]])]"
    by (rule conjunct1)
  then show ?thesis by (simp only: concat.simps append.simps)
qed

section \<open>Round trip\<close>

lemma split_frame_packets:
  assumes "header_size < max_packet_size" "u32_ok frame_number"
    and "total_packets_of max_packet_size header_size data = Inr total_packets"
    and "u32_ok total_packets"
    and d_def: "d = nat (max_packet_size - header_size)"
    and chunks_def: "chunks = map (\<lambda>k. take d (drop (k * d) data)) [0..<nat total_packets]"
  shows "split max_packet_size header_size frame_number data
           = (frame_packets_of frame_number chunks, None)"
    and "concat chunks = data"
    and "length chunks = nat total_packets"
    and "\<forall>chunk\<in>set chunks. length chunk \<le> d"
    and "data \<noteq> [] \<Longrightarrow> 0 < total_packets"
proof -
  let ?n = "nat \<lceil>real (length data) / real_of_int (max_packet_size - header_size)\<rceil>"
  have pos: "0 < max_packet_size - header_size" using assms(1) by simp
  have dpos: "0 < d" using assms(1) by (simp add: d_def)
  have rd: "real_of_int (max_packet_size - header_size) = real d"
    using assms(1) by (simp add: d_def)
  have tp: "total_packets = (int (length data) + max_packet_size - header_size - 1)
              div (max_packet_size - header_size)"
    using assms(3) pos by (simp add: total_packets_of_def split: if_splits)
  have "(int (length data) + max_packet_size - header_size - 1)
              div (max_packet_size - header_size)
            = \<lceil>real (length data) / real_of_int (max_packet_size - header_size)\<rceil>"
    using ceil_div [OF pos, of "int (length data)"] by (simp add: algebra_simps)
  with tp have tpc: "total_packets = \<lceil>real (length data) / real_of_int (max_packet_size - header_size)\<rceil>"
    by simp
  have n: "nat total_packets = ?n" by (simp only: tpc)
  have tn: "int (nat total_packets) = total_packets" using assms(4) by (simp add: u32_ok_def)
  have un: "u32_ok (int ?n)" using assms(4) tn n by simp
  have n': "nat total_packets = nat \<lceil>real (length data) / real d\<rceil>" by (simp only: n rd)
  note b = ceil_bounds [OF dpos, of "length data", folded n']
  show len: "length chunks = nat total_packets" by (simp add: chunks_def)
  have "split max_packet_size header_size frame_number data
        = (map (\<lambda>k. packet frame_number (int k) (int ?n) (take d (drop (k * d) data))) [0..<?n],
           None)"
    by (rule split_eq [OF assms(1,2) d_def refl un])
  also have "\<dots> = (map (\<lambda>k. packet frame_number (int k) (int (nat total_packets))
                              (take d (drop (k * d) data))) [0..<nat total_packets], None)"
    by (simp only: n)
  also have "map (\<lambda>k. packet frame_number (int k) (int (nat total_packets))
                         (take d (drop (k * d) data))) [0..<nat total_packets]
             = frame_packets_of frame_number chunks"
    unfolding frame_packets_of_def len
    by (rule map_cong [OF refl]) (simp add: chunks_def)
  finally show "split max_packet_size header_size frame_number data
           = (frame_packets_of frame_number chunks, None)" .
  show "concat chunks = data"
    using b(1) by (simp add: chunks_def concat_chunks)
  show "\<forall>chunk\<in>set chunks. length chunk \<le> d"
    by (auto simp: chunks_def)
  show "0 < total_packets" if "data \<noteq> []"
    using b(3) that by simp
qed

text \<open>
  C1, amended: for a payload that is not empty, a packet size above the 12-byte header
  and at most \<^verbatim>\<open>MAX_UDP_SIZE\<close> (what the receiver reads of a datagram), a frame number
  and a packet count within the header fields: the packetizer raises nothing, and its
  packets, ingested once each in the order sent by a receiver with empty buffers whose
  cursor is at the frame number, make the receiver emit exactly one frame, the payload
  byte for byte.
\<close>

theorem roundtrip:
  assumes "HEADER_SIZE < max_packet_size" and "max_packet_size \<le> MAX_UDP_SIZE"
    and "u32_ok frame_number" and "data \<noteq> []"
    and "total_packets_of max_packet_size HEADER_SIZE data = Inr total_packets"
    and "u32_ok total_packets"
  shows "snd (split max_packet_size HEADER_SIZE frame_number data) = None
       \<and> emitted (ingest_all (fresh frame_number)
                    (fst (split max_packet_size HEADER_SIZE frame_number data)))
           = [(frame_number, data)]"
proof -
  define d where "d = nat (max_packet_size - HEADER_SIZE)"
  define chunks where "chunks = map (\<lambda>k. take d (drop (k * d) data)) [0..<nat total_packets]"
  note s = split_frame_packets [OF assms(1,3,5,6) d_def chunks_def]
  from s(5) [OF assms(4)] s(3) have "0 < length chunks" by simp
  then have ne: "chunks \<noteq> []" by simp
  have n: "u32_ok (int (length chunks))" using s(3) assms(6) by (simp add: u32_ok_def)
  have "d \<le> 1388" using assms(1,2) by (simp add: d_def eval_consts)
  with s(4) have small: "\<forall>chunk\<in>set chunks. length chunk \<le> 1388" by auto
  have "emitted (ingest_all (fresh frame_number) (frame_packets_of frame_number chunks))
        = [(frame_number, concat chunks)]"
    by (rule ingest_frame_set [OF assms(3) ne n small refl])
  with s(1,2) show ?thesis by simp
qed

text \<open>A payload of three bytes, sent as frame 7.\<close>

theorem roundtrip_witness:
  "emitted (ingest_all (fresh 7) (fst (split 1400 12 7 [1, 2, 3]))) = [(7, [1, 2, 3])]"
proof -
  have a: "HEADER_SIZE < 1400" by (simp add: eval_consts)
  have b: "1400 \<le> MAX_UDP_SIZE" by (simp add: eval_consts)
  have c: "u32_ok 7" by (simp add: u32_ok_def)
  have d: "[1 :: byte, 2, 3] \<noteq> []" by simp
  have e: "total_packets_of 1400 HEADER_SIZE [1 :: byte, 2, 3] = Inr 1"
    by (simp add: total_packets_of_def eval_consts)
  have f: "u32_ok 1" by (simp add: u32_ok_def)
  from roundtrip [OF a b c d e f] show ?thesis by (simp add: eval_consts)
qed

text \<open>
  C1, as stated, covers the payload of length 0. No packet is sent for it, and the
  receiver emits nothing.
\<close>

theorem empty_payload_not_emitted_counterexample:
  "emitted (ingest_all (fresh 0) (fst (send_frame 0 []))) = []"
  by (simp add: send_frame_def split_def total_packets_of_def eval_consts range_py_def fresh_def)

end
